theory Spec2Isabelle
  imports
    Main
    "HOL-Library.Char_ord"
    "HOL-Library.List_Lexorder"
    "HOL-Library.Product_Lexorder"
    "HOL-Library.Multiset"
begin

section \<open>The link checker of AmeriDocs (check\_links.py)\<close>

text \<open>
  The script collects the external links of a set of HTML files, probes every distinct
  URL once (HEAD, then GET, with retries) and reports the broken ones. The embedding
  follows the source function by function. The HTTP library is not part of the source;
  what a request yields is an input of the model: a function from the URL, the method and
  the index of the attempt to the result of that request.
\<close>

subsection \<open>Configuration\<close>

definition CONCURRENCY :: int where
  "CONCURRENCY = 20"

definition TIMEOUT_SECONDS :: int where
  "TIMEOUT_SECONDS = 30"

definition RETRY_COUNT :: int where
  "RETRY_COUNT = 1"

subsection \<open>Requests, responses and exceptions\<close>

datatype http_method = HEAD | GET

text \<open>
  The exceptions a request can end in, classified by the first \<open>except\<close> clause of the GET
  phase that matches them, in the order of the source: \<open>asyncio.TimeoutError\<close>,
  \<open>aiohttp.ClientConnectorError\<close>, any other \<open>aiohttp.ClientError\<close>, any other \<open>OSError\<close>.
  The string is \<open>str(e)\<close>. \<open>OtherException\<close> stands for an exception of none of these classes,
  which no clause of \<open>check_one_url\<close> catches.
\<close>

datatype exn =
    TimeoutError
  | ClientConnectorError string
  | ClientError string
  | OSError string
  | OtherException string

text \<open>
  A request either yields a response (\<open>resp.status\<close>, \<open>resp.reason\<close>, the latter possibly
  \<open>None\<close>) or raises.
\<close>

datatype probe_result = Response int "string option" | Raises exn

type_synonym server = "http_method \<Rightarrow> nat \<Rightarrow> probe_result"
type_synonym net = "string \<Rightarrow> server"

text \<open>The value \<open>(status_code: int|None, reason: str)\<close> that \<open>check_one_url\<close> returns.\<close>

type_synonym outcome = "int option \<times> string"

text \<open>
  What a probe does to the outside: it takes and gives back the semaphore, issues
  requests and sleeps.
\<close>

datatype event = Acquire | Release | Request http_method string | Sleep nat

text \<open>Python's \<open>x or d\<close> on an optional string: \<open>None\<close> and the empty string are falsy.\<close>

definition py_or :: "string option \<Rightarrow> string \<Rightarrow> string" where
  "py_or x d = (case x of None \<Rightarrow> d | Some s \<Rightarrow> if s = [] then d else s)"

subsection \<open>\<open>check_one_url\<close>\<close>

text \<open>
  The body of \<open>async with session.head(...) as resp\<close>: a status below 400 returns "OK",
  405 raises \<open>ClientError("HEAD not allowed")\<close>, any other status returns the server's
  reason or "Error".
\<close>

definition head_body :: "int \<Rightarrow> string option \<Rightarrow> exn + outcome" where
  "head_body st rs =
     (if st < 400 then Inr (Some st, ''OK'')
      else if st = 405 then Inl (ClientError ''HEAD not allowed'')
      else Inr (Some st, py_or rs ''Error''))"

definition head_try :: "probe_result \<Rightarrow> exn + outcome" where
  "head_try r = (case r of Response st rs \<Rightarrow> head_body st rs | Raises e \<Rightarrow> Inl e)"

text \<open>\<open>except (aiohttp.ClientError, asyncio.TimeoutError, OSError): pass\<close>\<close>

fun head_except :: "exn \<Rightarrow> bool" where
  "head_except TimeoutError = True"
| "head_except (ClientConnectorError m) = True"
| "head_except (ClientError m) = True"
| "head_except (OSError m) = True"
| "head_except (OtherException m) = False"

text \<open>How one pass through the body of the \<open>for\<close> loop ends.\<close>

datatype attempt_exit = Return outcome | Continue | Raise exn

text \<open>
  The block shared by the four handlers of the GET phase:
  \<open>if attempt < retries: await asyncio.sleep(2); continue\<close>, else return the final value.
\<close>

definition retry_or_return :: "nat \<Rightarrow> int \<Rightarrow> outcome \<Rightarrow> attempt_exit \<times> event list" where
  "retry_or_return attempt retries final =
     (if int attempt < retries then (Continue, [Sleep 2]) else (Return final, []))"

text \<open>The second \<open>try\<close> statement, given what the GET request yields.\<close>

fun get_try :: "nat \<Rightarrow> int \<Rightarrow> probe_result \<Rightarrow> attempt_exit \<times> event list" where
  "get_try attempt retries (Response st rs) =
     (Return (Some st, py_or rs (if st < 400 then ''OK'' else ''Error'')), [])"
| "get_try attempt retries (Raises TimeoutError) =
     retry_or_return attempt retries (None, ''Timeout'')"
| "get_try attempt retries (Raises (ClientConnectorError m)) =
     retry_or_return attempt retries (None, ''Connection failed'')"
| "get_try attempt retries (Raises (ClientError m)) =
     retry_or_return attempt retries (None, ''Client error: '' @ m)"
| "get_try attempt retries (Raises (OSError m)) =
     retry_or_return attempt retries (None, ''OS error: '' @ m)"
| "get_try attempt retries (Raises (OtherException m)) =
     (Raise (OtherException m), [])"

text \<open>One iteration of the loop: the HEAD phase, then, if it fell through, the GET phase.\<close>

definition one_attempt :: "server \<Rightarrow> string \<Rightarrow> int \<Rightarrow> nat \<Rightarrow> attempt_exit \<times> event list" where
  "one_attempt srv u retries attempt =
     (case head_try (srv HEAD attempt) of
        Inr out \<Rightarrow> (Return out, [Request HEAD u])
      | Inl e \<Rightarrow>
          if head_except e then
            (case get_try attempt retries (srv GET attempt) of
               (x, evs) \<Rightarrow> (x, [Request HEAD u, Request GET u] @ evs))
          else (Raise e, [Request HEAD u]))"

text \<open>How the \<open>for\<close> loop ends: by a \<open>return\<close>, by an exception, or by running out of attempts.\<close>

datatype loop_exit = Returned outcome | Raised exn | Exhausted

fun attempt_loop :: "server \<Rightarrow> string \<Rightarrow> int \<Rightarrow> nat list \<Rightarrow> loop_exit \<times> event list" where
  "attempt_loop srv u retries [] = (Exhausted, [])"
| "attempt_loop srv u retries (attempt # rest) =
     (case one_attempt srv u retries attempt of
        (Return out, evs) \<Rightarrow> (Returned out, evs)
      | (Raise e, evs) \<Rightarrow> (Raised e, evs)
      | (Continue, evs) \<Rightarrow>
          (case attempt_loop srv u retries rest of (x, evs') \<Rightarrow> (x, evs @ evs')))"

text \<open>\<open>range(n)\<close>\<close>

definition py_range :: "int \<Rightarrow> nat list" where
  "py_range n = [0..<nat n]"

text \<open>
  \<open>check_one_url(session, url, semaphore, retries)\<close>: the result is the returned pair or
  the exception that escapes, together with the events in order. The last \<open>return\<close> of the
  source, after the loop, gives \<open>(None, "Unknown error")\<close>.
\<close>

definition check_one_url :: "net \<Rightarrow> string \<Rightarrow> int \<Rightarrow> (exn + outcome) \<times> event list" where
  "check_one_url nw u retries =
     (case attempt_loop (nw u) u retries (py_range (1 + retries)) of
        (Returned out, evs) \<Rightarrow> (Inr out, [Acquire] @ evs @ [Release])
      | (Raised e, evs) \<Rightarrow> (Inl e, [Acquire] @ evs @ [Release])
      | (Exhausted, evs) \<Rightarrow> (Inr (None, ''Unknown error''), [Acquire] @ evs @ [Release]))"

text \<open>The number of attempts a probe made is the number of HEAD requests it issued.\<close>

definition requests :: "http_method \<Rightarrow> event list \<Rightarrow> nat" where
  "requests m evs = length (filter (\<lambda>e. case e of Request m' _ \<Rightarrow> m' = m | _ \<Rightarrow> False) evs)"

definition sleeps :: "event list \<Rightarrow> nat list" where
  "sleeps evs = concat (map (\<lambda>e. case e of Sleep n \<Rightarrow> [n] | _ \<Rightarrow> []) evs)"

text \<open>A HEAD result after which the same attempt goes on to GET.\<close>

definition falls_through :: "probe_result \<Rightarrow> bool" where
  "falls_through r = (case head_try r of Inl e \<Rightarrow> head_except e | Inr _ \<Rightarrow> False)"

text \<open>A request result that one of the handlers of \<open>check_one_url\<close> deals with.\<close>

fun catchable :: "probe_result \<Rightarrow> bool" where
  "catchable (Raises (OtherException m)) = False"
| "catchable r = True"

text \<open>The events of a probe whose every attempt times out, with \<open>n\<close> retries.\<close>

fun timeout_trace :: "string \<Rightarrow> nat \<Rightarrow> event list" where
  "timeout_trace u 0 = [Request HEAD u, Request GET u]"
| "timeout_trace u (Suc n) = [Request HEAD u, Request GET u, Sleep 2] @ timeout_trace u n"

subsection \<open>\<open>is_external\<close> and the link map\<close>

text \<open>\<open>s.startswith(p)\<close>\<close>

definition startswith :: "string \<Rightarrow> string \<Rightarrow> bool" where
  "startswith s p = (take (length p) s = p)"

definition is_external :: "string \<Rightarrow> bool" where
  "is_external l = (startswith l ''http://'' \<or> startswith l ''https://'')"

text \<open>
  \<open>link_map\<close> is a dict from URL to the set of file names that use it. A dict keeps its
  keys in insertion order, and \<open>check_all_links\<close> walks them in that order, so the model is
  an association list with distinct keys.
\<close>

type_synonym link_map = "(string \<times> string set) list"

text \<open>\<open>link_map.setdefault(url, set()).add(fname)\<close>\<close>

fun setdefault_add :: "link_map \<Rightarrow> string \<Rightarrow> string \<Rightarrow> link_map" where
  "setdefault_add [] u fname = [(u, {fname})]"
| "setdefault_add ((k, pages) # m) u fname =
     (if k = u then (k, insert fname pages) # m
      else (k, pages) # setdefault_add m u fname)"

text \<open>
  The body of \<open>for fname in html_files\<close> in \<open>main\<close>. A document is the pair of a file name
  and the list \<open>extract_links\<close> returns for it; parsing the HTML is not modelled.
\<close>

type_synonym document = "string \<times> string list"

fun add_document :: "link_map \<Rightarrow> document \<Rightarrow> link_map" where
  "add_document m (fname, links) =
     foldl (\<lambda>m' l. setdefault_add m' l fname) m (filter is_external links)"

definition build_link_map :: "document list \<Rightarrow> link_map" where
  "build_link_map docs = foldl add_document [] docs"

subsection \<open>\<open>check_all_links\<close>\<close>

text \<open>A cell of the report: \<open>status\<close> holds the integer code or the string "N/A".\<close>

datatype cell = IntCell int | StrCell string

record row =
  page :: string
  url :: string
  status :: cell
  reason :: string

text \<open>\<open>status is None or status >= 400\<close>\<close>

definition is_failure :: "int option \<Rightarrow> bool" where
  "is_failure st = (case st of None \<Rightarrow> True | Some c \<Rightarrow> 400 \<le> c)"

text \<open>
  \<open>tasks = {url: ensure_future(check_one_url(session, url, semaphore)) for url in urls}\<close>:
  one task for each key of the map, with the default \<open>retries\<close>. A task is modelled by what
  it will have done when it is awaited.
\<close>

type_synonym task = "(exn + outcome) \<times> event list"

definition make_tasks :: "net \<Rightarrow> link_map \<Rightarrow> (string \<times> task) list" where
  "make_tasks nw m = map (\<lambda>u. (u, check_one_url nw u RETRY_COUNT)) (map fst m)"

text \<open>
  The rows appended for a failing URL: one for each page of \<open>sorted(link_map[url])\<close>.
  A missing key would raise \<open>KeyError\<close>.
\<close>

definition failure_rows :: "link_map \<Rightarrow> string \<Rightarrow> outcome \<Rightarrow> exn + row list" where
  "failure_rows m u out =
     (case map_of m u of
        None \<Rightarrow> Inl (OtherException ''KeyError'')
      | Some pages \<Rightarrow>
          Inr (map (\<lambda>pg. \<lparr>page = pg, url = u,
                           status = (case fst out of None \<Rightarrow> StrCell ''N/A'' | Some c \<Rightarrow> IntCell c),
                           reason = snd out\<rparr>)
                   (sorted_list_of_set pages)))"

text \<open>
  \<open>for url, task in tasks.items(): status, reason = await task ...\<close>. Awaiting a task that
  ended in an exception raises it in the coordinator. The progress lines printed on the way
  are not modelled.
\<close>

fun await_tasks :: "link_map \<Rightarrow> (string \<times> task) list \<Rightarrow> row list \<Rightarrow> exn + row list" where
  "await_tasks m [] results = Inr results"
| "await_tasks m ((u, t) # ts) results =
     (case fst t of
        Inl e \<Rightarrow> Inl e
      | Inr out \<Rightarrow>
          if is_failure (fst out) then
            (case failure_rows m u out of
               Inl e \<Rightarrow> Inl e
             | Inr new \<Rightarrow> await_tasks m ts (results @ new))
          else await_tasks m ts results)"

definition check_all_links :: "net \<Rightarrow> link_map \<Rightarrow> exn + row list" where
  "check_all_links nw m = await_tasks m (make_tasks nw m) []"

subsection \<open>\<open>main\<close>\<close>

text \<open>
  What \<open>main\<close> hands on: the sorted rows written to the CSV file, the set \<open>broken_urls\<close> and
  the number of rows of the summary, and the value returned to \<open>sys.exit\<close>. Reading the
  directory, writing the file and printing are not modelled.
\<close>

record report =
  csv_rows :: "row list"
  broken_urls :: "string set"
  broken_references :: nat
  exit_code :: int

text \<open>The key of \<open>results.sort(key=lambda r: (r["page"], r["url"]))\<close>.\<close>

definition sort_field :: "row \<Rightarrow> string \<times> string" where
  "sort_field r = (page r, url r)"

definition main :: "net \<Rightarrow> document list \<Rightarrow> exn + report" where
  "main nw docs =
     (case check_all_links nw (build_link_map docs) of
        Inl e \<Rightarrow> Inl e
      | Inr results \<Rightarrow>
          (let results' = sort_key sort_field results
           in Inr \<lparr>csv_rows = results',
                   broken_urls = url ` set results',
                   broken_references = length results',
                   exit_code = (if results' = [] then 0 else 1)\<rparr>))"

subsection \<open>What the documents say\<close>

text \<open>Document \<open>pg\<close> holds the external link \<open>l\<close>.\<close>

definition references :: "document list \<Rightarrow> string \<Rightarrow> string \<Rightarrow> bool" where
  "references docs pg l = (is_external l \<and> (\<exists>d\<in>set docs. fst d = pg \<and> l \<in> set (snd d)))"

text \<open>The distinct external links of all documents.\<close>

definition targets :: "document list \<Rightarrow> string set" where
  "targets docs = set (filter is_external (concat (map snd docs)))"

text \<open>\<open>link_map.get(url, set())\<close>: the pages recorded for a URL.\<close>

definition pages_of :: "link_map \<Rightarrow> string \<Rightarrow> string set" where
  "pages_of m u = (case map_of m u of None \<Rightarrow> {} | Some pages \<Rightarrow> pages)"

text \<open>
  The invariant of the link map that \<open>main\<close> builds: the keys are distinct (it is a dict),
  and every key has a finite, non-empty set of pages.
\<close>

definition well_formed :: "link_map \<Rightarrow> bool" where
  "well_formed m = (distinct (map fst m) \<and> (\<forall>e\<in>set m. finite (snd e) \<and> snd e \<noteq> {}))"

text \<open>The one outcome of probing \<open>u\<close> with the default retry count is a failure.\<close>

definition failing :: "net \<Rightarrow> string \<Rightarrow> bool" where
  "failing nw u =
     (case fst (check_one_url nw u RETRY_COUNT) of
        Inr out \<Rightarrow> is_failure (fst out)
      | Inl e \<Rightarrow> False)"

text \<open>The rows that awaiting the task of \<open>u\<close> adds to \<open>results\<close>, when nothing is raised.\<close>

definition rows_for :: "net \<Rightarrow> link_map \<Rightarrow> string \<Rightarrow> row list" where
  "rows_for nw m u =
     (case fst (check_one_url nw u RETRY_COUNT) of
        Inr out \<Rightarrow>
          if is_failure (fst out) then
            (case failure_rows m u out of Inr new \<Rightarrow> new | Inl e \<Rightarrow> [])
          else []
      | Inl e \<Rightarrow> [])"

text \<open>The rows of a whole run of the coordinator, when nothing is raised.\<close>

definition all_rows :: "net \<Rightarrow> link_map \<Rightarrow> row list" where
  "all_rows nw m = concat (map (rows_for nw m) (map fst m))"

subsection \<open>Example servers\<close>

text \<open>A server that answers 404 "Not Found" to everything.\<close>

definition not_found_net :: net where
  "not_found_net u m i = Response 404 (Some ''Not Found'')"

text \<open>A server on which every request times out.\<close>

definition always_timeout_net :: net where
  "always_timeout_net u m i = Raises TimeoutError"

text \<open>A server that rejects HEAD with 405 and answers GET with 200 and the phrase "Fine".\<close>

definition head_rejected_net :: net where
  "head_rejected_net u m i =
     (case m of HEAD \<Rightarrow> Response 405 (Some ''Method Not Allowed'')
              | GET \<Rightarrow> Response 200 (Some ''Fine''))"

text \<open>
  The scenario of the specification: \<open>a.html\<close> links to a good URL, \<open>b.html\<close> to the good URL
  and to a bad one; the good URL always answers 200, the bad one always 500 with no reason.
\<close>

definition scenario_docs :: "document list" where
  "scenario_docs =
     [(''a.html'', [''http://good.example'']),
      (''b.html'', [''http://good.example'', ''http://bad.example''])]"

definition scenario_net :: net where
  "scenario_net u m i =
     (if u = ''http://bad.example'' then Response 500 None else Response 200 (Some ''OK''))"

text \<open>A server that rejects HEAD with 405 and lets every GET time out.\<close>

definition head_rejected_timeout_net :: net where
  "head_rejected_timeout_net u m i =
     (case m of HEAD \<Rightarrow> Response 405 None | GET \<Rightarrow> Raises TimeoutError)"

text \<open>
  A network on which the request for one URL raises \<open>ValueError\<close>, which is neither a
  \<open>ClientError\<close>, nor a timeout, nor an \<open>OSError\<close>, while every other URL answers 200; and a
  document that links to a good URL and to that one.
\<close>

definition value_error_net :: net where
  "value_error_net u m i =
     (if u = ''http://a%3Ab@example.com/'' then Raises (OtherException ''ValueError'')
      else Response 200 (Some ''OK''))"

definition value_error_docs :: "document list" where
  "value_error_docs = [(''a.html'', [''http://good.example'', ''http://a%3Ab@example.com/''])]"

section \<open>Properties of the probe\<close>

lemma py_range_Suc: "0 \<le> retries \<Longrightarrow> py_range (1 + retries) = [0..<Suc (nat retries)]"
  by (simp add: py_range_def nat_add_distrib)

lemma py_range_first: "0 \<le> retries \<Longrightarrow> py_range (1 + retries) = 0 # [1..<Suc (nat retries)]"
  by (simp add: py_range_Suc upt_conv_Cons)

text \<open>
  C1. When the first HEAD request yields a status of at least 400 other than 405, the probe
  returns that status with the server's reason phrase ("Error" when the phrase is absent or
  empty), after one attempt: one HEAD request, no GET request, no sleep.
\<close>

theorem head_error_is_terminal:
  assumes "0 \<le> retries" and "nw u HEAD 0 = Response code rs"
    and "400 \<le> code" and "code \<noteq> 405"
  shows "check_one_url nw u retries =
           (Inr (Some code, case rs of None \<Rightarrow> ''Error'' | Some s \<Rightarrow> if s = [] then ''Error'' else s),
            [Acquire, Request HEAD u, Release])
         \<and> requests HEAD (snd (check_one_url nw u retries)) = 1
         \<and> requests GET (snd (check_one_url nw u retries)) = 0
         \<and> sleeps (snd (check_one_url nw u retries)) = []"
proof -
  have att: "one_attempt (nw u) u retries 0 = (Return (Some code, py_or rs ''Error''), [Request HEAD u])"
    using assms by (simp add: one_attempt_def head_try_def head_body_def)
  have "check_one_url nw u retries = (Inr (Some code, py_or rs ''Error''), [Acquire, Request HEAD u, Release])"
    using assms(1) att by (simp add: check_one_url_def py_range_first)
  then show ?thesis
    by (simp add: py_or_def requests_def sleeps_def)
qed

theorem head_error_is_terminal_witness:
  "check_one_url not_found_net ''http://gone.example'' RETRY_COUNT =
     (Inr (Some 404, ''Not Found''), [Acquire, Request HEAD ''http://gone.example'', Release])
   \<and> requests HEAD (snd (check_one_url not_found_net ''http://gone.example'' RETRY_COUNT)) = 1"
  using head_error_is_terminal [of RETRY_COUNT not_found_net "''http://gone.example''" 404 "Some ''Not Found''"]
  by (simp add: RETRY_COUNT_def not_found_net_def requests_def)

lemma upt_first: "k \<le> n \<Longrightarrow> [k..<Suc n] = k # [Suc k..<Suc n]"
  by (simp add: upt_conv_Cons)

lemma one_attempt_timeout:
  assumes "falls_through (srv HEAD k)" and "srv GET k = Raises TimeoutError"
  shows "one_attempt srv u retries k =
           (if int k < retries then (Continue, [Request HEAD u, Request GET u, Sleep 2])
            else (Return (None, ''Timeout''), [Request HEAD u, Request GET u]))"
  using assms
  by (auto simp: one_attempt_def falls_through_def retry_or_return_def split: sum.splits)

lemma timeout_loop:
  assumes "retries = int n"
    and "\<forall>i\<le>n. falls_through (srv HEAD i) \<and> srv GET i = Raises TimeoutError"
  shows "k \<le> n \<Longrightarrow> d = n - k \<Longrightarrow>
         attempt_loop srv u retries [k..<Suc n] = (Returned (None, ''Timeout''), timeout_trace u d)"
proof (induction d arbitrary: k)
  case 0
  then have "k = n" by simp
  then show ?case using assms
    by (simp add: one_attempt_timeout)
next
  case (Suc d)
  then have lt: "k < n" and le: "Suc k \<le> n" and d: "d = n - Suc k" by simp_all
  have ih: "attempt_loop srv u retries [Suc k..<Suc n] = (Returned (None, ''Timeout''), timeout_trace u d)"
    using Suc.IH [OF le d] .
  have hyp: "falls_through (srv HEAD k) \<and> srv GET k = Raises TimeoutError"
    using assms(2) lt by simp
  have step: "one_attempt srv u retries k = (Continue, [Request HEAD u, Request GET u, Sleep 2])"
    using hyp lt assms(1) by (simp add: one_attempt_timeout)
  have "attempt_loop srv u retries (k # [Suc k..<Suc n]) =
          (Returned (None, ''Timeout''), timeout_trace u (Suc d))"
    by (simp add: step ih del: upt_Suc)
  then show ?case using upt_first [of k n] lt by simp
qed

lemma requests_timeout_trace:
  "requests HEAD (timeout_trace u n) = Suc n" "requests GET (timeout_trace u n) = Suc n"
  "sleeps (timeout_trace u n) = replicate n 2"
  by (induction n) (simp_all add: requests_def sleeps_def)

text \<open>
  C2. With \<open>retries \<ge> 0\<close>, when in every attempt the HEAD phase falls through to GET (by a
  transport error or a 405) and the GET request times out, the probe makes \<open>1 + retries\<close>
  attempts, each one HEAD and one GET request, sleeps 2 between consecutive attempts, and
  returns \<open>(None, "Timeout")\<close>.
\<close>

theorem all_timeouts_retry_bound:
  assumes "0 \<le> retries"
    and "\<forall>i\<le>nat retries. falls_through (nw u HEAD i) \<and> nw u GET i = Raises TimeoutError"
  shows "check_one_url nw u retries =
           (Inr (None, ''Timeout''), [Acquire] @ timeout_trace u (nat retries) @ [Release])
         \<and> int (requests HEAD (snd (check_one_url nw u retries))) = 1 + retries
         \<and> int (requests GET (snd (check_one_url nw u retries))) = 1 + retries
         \<and> sleeps (snd (check_one_url nw u retries)) = replicate (nat retries) 2"
proof -
  have "attempt_loop (nw u) u retries [0..<Suc (nat retries)] =
          (Returned (None, ''Timeout''), timeout_trace u (nat retries - 0))"
    using assms by (intro timeout_loop [where n = "nat retries"]) simp_all
  then have c: "check_one_url nw u retries =
           (Inr (None, ''Timeout''), [Acquire] @ timeout_trace u (nat retries) @ [Release])"
    using assms(1) by (simp add: check_one_url_def py_range_Suc del: upt_Suc)
  have r: "requests m ([Acquire] @ evs @ [Release]) = requests m evs" for m evs
    by (simp add: requests_def)
  have s: "sleeps ([Acquire] @ evs @ [Release]) = sleeps evs" for evs
    by (simp add: sleeps_def)
  show ?thesis using assms(1)
    unfolding c snd_conv r s by (simp add: requests_timeout_trace)
qed

theorem all_timeouts_retry_bound_witness:
  "check_one_url always_timeout_net ''http://slow.example'' RETRY_COUNT =
     (Inr (None, ''Timeout''),
      [Acquire, Request HEAD ''http://slow.example'', Request GET ''http://slow.example'', Sleep 2,
       Request HEAD ''http://slow.example'', Request GET ''http://slow.example'', Release])
   \<and> requests HEAD (snd (check_one_url always_timeout_net ''http://slow.example'' RETRY_COUNT)) = 2"
proof -
  have h: "\<forall>i\<le>nat RETRY_COUNT. falls_through (always_timeout_net ''http://slow.example'' HEAD i)
             \<and> always_timeout_net ''http://slow.example'' GET i = Raises TimeoutError"
    by (simp add: always_timeout_net_def falls_through_def head_try_def)
  have z: "0 \<le> RETRY_COUNT" by (simp add: RETRY_COUNT_def)
  have n: "nat RETRY_COUNT = Suc 0" by (simp add: RETRY_COUNT_def)
  show ?thesis
    using all_timeouts_retry_bound [of RETRY_COUNT always_timeout_net "''http://slow.example''"] z h
    by (simp add: n numeral_2_eq_2 requests_def)
qed

text \<open>
  C3, as stated, fails: after a 405 on HEAD the reason of a 200 on GET is the phrase the server
  sent, here "Fine", and not "OK".
\<close>

theorem escalation_reason_counterexample:
  "fst (check_one_url head_rejected_net ''http://a.example'' RETRY_COUNT) = Inr (Some 200, ''Fine'')
   \<and> fst (check_one_url head_rejected_net ''http://a.example'' RETRY_COUNT) \<noteq> Inr (Some 200, ''OK'')"
  by (simp add: check_one_url_def py_range_def RETRY_COUNT_def upt_conv_Cons one_attempt_def
      head_rejected_net_def head_try_def head_body_def py_or_def)

text \<open>
  C3, amended. With \<open>retries \<ge> 0\<close>, when the first HEAD request yields 405 the probe issues the
  GET request next, in the same attempt, whatever that GET yields: its events begin with the
  acquire, the HEAD request and the GET request, with no sleep and no second HEAD in between.
  The same holds of every attempt: an attempt whose HEAD yields 405 ends as its GET phase
  ends, and its events are the HEAD request, the GET request and those of the GET phase.
  When the GET of the first attempt yields a response, the probe returns its status with the
  server's reason phrase, or with "OK" (below 400) or "Error" when the phrase is absent or
  empty, after one attempt: one HEAD request, one GET request, no sleep. For a 200 the reason
  is the server's phrase, or "OK" when there is none.
\<close>

theorem escalation_same_attempt:
  assumes "0 \<le> retries" and "nw u HEAD 0 = Response 405 rs"
  shows "(\<exists>rest. snd (check_one_url nw u retries) = [Acquire, Request HEAD u, Request GET u] @ rest)
     \<and> (\<forall>k rs0. nw u HEAD k = Response 405 rs0 \<longrightarrow>
           one_attempt (nw u) u retries k =
             (fst (get_try k retries (nw u GET k)),
              [Request HEAD u, Request GET u] @ snd (get_try k retries (nw u GET k))))
     \<and> (\<forall>c rs'. nw u GET 0 = Response c rs' \<longrightarrow>
           check_one_url nw u retries =
             (Inr (Some c, case rs' of None \<Rightarrow> (if c < 400 then ''OK'' else ''Error'')
                            | Some s \<Rightarrow> if s = [] then (if c < 400 then ''OK'' else ''Error'') else s),
              [Acquire, Request HEAD u, Request GET u, Release]))
     \<and> (\<forall>rs'. nw u GET 0 = Response 200 rs' \<longrightarrow>
           check_one_url nw u retries =
             (Inr (Some 200, case rs' of None \<Rightarrow> ''OK'' | Some s \<Rightarrow> if s = [] then ''OK'' else s),
              [Acquire, Request HEAD u, Request GET u, Release])
           \<and> requests HEAD (snd (check_one_url nw u retries)) = 1
           \<and> requests GET (snd (check_one_url nw u retries)) = 1
           \<and> sleeps (snd (check_one_url nw u retries)) = [])"
proof (intro conjI allI impI)
  have esc: "one_attempt (nw u) u retries k =
             (fst (get_try k retries (nw u GET k)),
              [Request HEAD u, Request GET u] @ snd (get_try k retries (nw u GET k)))"
    if "nw u HEAD k = Response 405 rs0" for k rs0
    using that by (simp add: one_attempt_def head_try_def head_body_def split: prod.splits)
  show "one_attempt (nw u) u retries k =
             (fst (get_try k retries (nw u GET k)),
              [Request HEAD u, Request GET u] @ snd (get_try k retries (nw u GET k)))"
    if "nw u HEAD k = Response 405 rs0" for k rs0
    using that by (rule esc)
  obtain x evs where g: "get_try 0 retries (nw u GET 0) = (x, evs)"
    by (cases "get_try 0 retries (nw u GET 0)")
  have att: "one_attempt (nw u) u retries 0 = (x, [Request HEAD u, Request GET u] @ evs)"
    using esc [OF assms(2)] g by simp
  obtain y evs' where l: "attempt_loop (nw u) u retries [1..<Suc (nat retries)] = (y, evs')"
    by (cases "attempt_loop (nw u) u retries [1..<Suc (nat retries)]")
  show "\<exists>rest. snd (check_one_url nw u retries) = [Acquire, Request HEAD u, Request GET u] @ rest"
    using assms(1) att l
    by (cases x; cases y) (simp_all add: check_one_url_def py_range_first)
  have resp: "check_one_url nw u retries =
             (Inr (Some c, py_or rs' (if c < 400 then ''OK'' else ''Error'')),
              [Acquire, Request HEAD u, Request GET u, Release])"
    if "nw u GET 0 = Response c rs'" for c rs'
  proof -
    have "one_attempt (nw u) u retries 0 =
            (Return (Some c, py_or rs' (if c < 400 then ''OK'' else ''Error'')),
             [Request HEAD u, Request GET u])"
      using esc [OF assms(2)] that by simp
    then show ?thesis using assms(1) by (simp add: check_one_url_def py_range_first)
  qed
  show "check_one_url nw u retries =
             (Inr (Some c, case rs' of None \<Rightarrow> (if c < 400 then ''OK'' else ''Error'')
                            | Some s \<Rightarrow> if s = [] then (if c < 400 then ''OK'' else ''Error'') else s),
              [Acquire, Request HEAD u, Request GET u, Release])"
    if "nw u GET 0 = Response c rs'" for c rs'
    using resp [OF that] by (simp add: py_or_def)
  fix rs' assume g200: "nw u GET 0 = Response 200 rs'"
  have r200: "check_one_url nw u retries =
             (Inr (Some 200, py_or rs' ''OK''), [Acquire, Request HEAD u, Request GET u, Release])"
    using resp [OF g200] by simp
  show "check_one_url nw u retries =
             (Inr (Some 200, case rs' of None \<Rightarrow> ''OK'' | Some s \<Rightarrow> if s = [] then ''OK'' else s),
              [Acquire, Request HEAD u, Request GET u, Release])"
    using r200 by (simp add: py_or_def)
  show "requests HEAD (snd (check_one_url nw u retries)) = 1"
    unfolding r200 by (simp add: requests_def)
  show "requests GET (snd (check_one_url nw u retries)) = 1"
    unfolding r200 by (simp add: requests_def)
  show "sleeps (snd (check_one_url nw u retries)) = []"
    unfolding r200 by (simp add: sleeps_def)
qed

theorem escalation_same_attempt_witness:
  "check_one_url head_rejected_net ''http://a.example'' RETRY_COUNT =
     (Inr (Some 200, ''Fine''),
      [Acquire, Request HEAD ''http://a.example'', Request GET ''http://a.example'', Release])
   \<and> requests HEAD (snd (check_one_url head_rejected_net ''http://a.example'' RETRY_COUNT)) = 1
   \<and> (\<exists>rest. snd (check_one_url head_rejected_timeout_net ''http://a.example'' RETRY_COUNT) =
         [Acquire, Request HEAD ''http://a.example'', Request GET ''http://a.example''] @ rest)
   \<and> one_attempt (head_rejected_timeout_net ''http://a.example'') ''http://a.example'' RETRY_COUNT 1 =
        (Return (None, ''Timeout''), [Request HEAD ''http://a.example'', Request GET ''http://a.example''])"
proof -
  have z: "0 \<le> RETRY_COUNT" by (simp add: RETRY_COUNT_def)
  have h1: "head_rejected_net ''http://a.example'' HEAD 0 = Response 405 (Some ''Method Not Allowed'')"
    by (simp add: head_rejected_net_def)
  have g1: "head_rejected_net ''http://a.example'' GET 0 = Response 200 (Some ''Fine'')"
    by (simp add: head_rejected_net_def)
  have h2: "head_rejected_timeout_net ''http://a.example'' HEAD k = Response 405 None" for k
    by (simp add: head_rejected_timeout_net_def)
  have g2: "get_try 1 RETRY_COUNT (head_rejected_timeout_net ''http://a.example'' GET 1) =
              (Return (None, ''Timeout''), [])"
    by (simp add: head_rejected_timeout_net_def retry_or_return_def RETRY_COUNT_def)
  note a = escalation_same_attempt [of RETRY_COUNT head_rejected_net "''http://a.example''"
      "Some ''Method Not Allowed''", OF z h1]
  note b = escalation_same_attempt [of RETRY_COUNT head_rejected_timeout_net "''http://a.example''"
      None, OF z h2 [of 0]]
  have 1: "check_one_url head_rejected_net ''http://a.example'' RETRY_COUNT =
     (Inr (Some 200, ''Fine''),
      [Acquire, Request HEAD ''http://a.example'', Request GET ''http://a.example'', Release])"
    using a g1 by simp
  have 2: "requests HEAD (snd (check_one_url head_rejected_net ''http://a.example'' RETRY_COUNT)) = 1"
    using a g1 by blast
  have 3: "\<exists>rest. snd (check_one_url head_rejected_timeout_net ''http://a.example'' RETRY_COUNT) =
         [Acquire, Request HEAD ''http://a.example'', Request GET ''http://a.example''] @ rest"
    using b by (elim conjE)
  have "one_attempt (head_rejected_timeout_net ''http://a.example'') ''http://a.example'' RETRY_COUNT 1 =
          (fst (get_try 1 RETRY_COUNT (head_rejected_timeout_net ''http://a.example'' GET 1)),
           [Request HEAD ''http://a.example'', Request GET ''http://a.example'']
           @ snd (get_try 1 RETRY_COUNT (head_rejected_timeout_net ''http://a.example'' GET 1)))"
    using b h2 [of 1] by blast
  then have 4: "one_attempt (head_rejected_timeout_net ''http://a.example'') ''http://a.example'' RETRY_COUNT 1 =
        (Return (None, ''Timeout''), [Request HEAD ''http://a.example'', Request GET ''http://a.example''])"
    unfolding g2 by simp
  show ?thesis using 1 2 3 4 by (intro conjI)
qed







lemma fst_one_attempt:
  "fst (one_attempt srv u retries k) =
     (case head_try (srv HEAD k) of
        Inr out \<Rightarrow> Return out
      | Inl e \<Rightarrow> if head_except e then fst (get_try k retries (srv GET k)) else Raise e)"
  by (simp add: one_attempt_def split: sum.splits prod.splits)

lemma fst_attempt_loop_Cons:
  "fst (attempt_loop srv u retries (k # ks)) =
     (case fst (one_attempt srv u retries k) of
        Return out \<Rightarrow> Returned out
      | Raise e \<Rightarrow> Raised e
      | Continue \<Rightarrow> fst (attempt_loop srv u retries ks))"
  by (simp split: prod.splits attempt_exit.splits)



lemma get_try_catchable: "catchable r \<Longrightarrow> fst (get_try k retries r) \<noteq> Raise e"
  by (cases "(k, retries, r)" rule: get_try.cases) (simp_all add: retry_or_return_def)

lemma head_try_catchable: "catchable r \<Longrightarrow> head_try r = Inl e \<Longrightarrow> head_except e"
  by (cases r; cases e) (auto simp: head_try_def head_body_def split: if_splits)

lemma one_attempt_catchable:
  assumes "\<forall>m i. catchable (srv m i)"
  shows "fst (one_attempt srv u retries k) \<noteq> Raise e"
proof (cases "head_try (srv HEAD k)")
  case (Inl e')
  then have "head_except e'" using assms head_try_catchable by blast
  then show ?thesis using Inl get_try_catchable [of "srv GET k" k retries e] assms
    by (simp add: fst_one_attempt)
next
  case (Inr out)
  then show ?thesis by (simp add: fst_one_attempt)
qed

lemma attempt_loop_catchable:
  assumes "\<forall>m i. catchable (srv m i)"
  shows "fst (attempt_loop srv u retries ks) \<noteq> Raised e"
proof (induction ks)
  case Nil
  then show ?case by simp
next
  case (Cons k ks)
  have "fst (one_attempt srv u retries k) \<noteq> Raise e'" for e'
    using one_attempt_catchable [OF assms] .
  then show ?case unfolding fst_attempt_loop_Cons using Cons.IH
    by (simp split: attempt_exit.splits)
qed

lemma fst_check_one_url:
  "fst (check_one_url nw u retries) =
     (case fst (attempt_loop (nw u) u retries (py_range (1 + retries))) of
        Returned out \<Rightarrow> Inr out
      | Raised e \<Rightarrow> Inl e
      | Exhausted \<Rightarrow> Inr (None, ''Unknown error''))"
  by (simp add: check_one_url_def split: prod.splits loop_exit.splits)

lemma check_one_url_catchable:
  assumes "\<forall>m i. catchable (nw u m i)"
  shows "\<exists>out. fst (check_one_url nw u retries) = Inr out"
proof -
  have "fst (attempt_loop (nw u) u retries (py_range (1 + retries))) \<noteq> Raised e" for e
    using attempt_loop_catchable [of "nw u"] assms by simp
  then show ?thesis unfolding fst_check_one_url
    by (cases "fst (attempt_loop (nw u) u retries (py_range (1 + retries)))") auto
qed



text \<open>The precondition is needed: with a negative \<open>retries\<close> the loop body never runs.\<close>

lemma no_attempts_unknown_error:
  "retries < 0 \<Longrightarrow> check_one_url nw u retries = (Inr (None, ''Unknown error''), [Acquire, Release])"
  by (simp add: check_one_url_def py_range_def)


section \<open>Properties of the link map\<close>

lemma map_of_setdefault_add:
  "map_of (setdefault_add m u f) k =
     (if k = u then Some (insert f (pages_of m u)) else map_of m k)"
  by (induction m u f rule: setdefault_add.induct) (auto simp: pages_of_def)

lemma pages_of_setdefault_add:
  "pages_of (setdefault_add m u f) k = (if k = u then insert f (pages_of m u) else pages_of m k)"
  by (simp add: pages_of_def map_of_setdefault_add)

lemma keys_setdefault_add: "fst ` set (setdefault_add m u f) = insert u (fst ` set m)"
  by (induction m u f rule: setdefault_add.induct) auto

lemma distinct_setdefault_add:
  "distinct (map fst m) \<Longrightarrow> distinct (map fst (setdefault_add m u f))"
proof (induction m u f rule: setdefault_add.induct)
  case (1 u fname)
  then show ?case by simp
next
  case (2 k pages m u fname)
  then show ?case using keys_setdefault_add [of m u fname] by auto
qed

lemma entries_setdefault_add:
  "e \<in> set (setdefault_add m u f) \<Longrightarrow>
   e = (u, {f}) \<or> e \<in> set m \<or> (\<exists>pages. (fst e, pages) \<in> set m \<and> snd e = insert f pages)"
  by (induction m u f rule: setdefault_add.induct) (auto split: if_splits)

lemma well_formed_setdefault_add:
  assumes "well_formed m"
  shows "well_formed (setdefault_add m u f)"
proof -
  have "finite (snd e) \<and> snd e \<noteq> {}" if "e \<in> set (setdefault_add m u f)" for e
    using entries_setdefault_add [OF that] assms by (auto simp: well_formed_def)
  then show ?thesis using assms distinct_setdefault_add by (simp add: well_formed_def)
qed

lemma well_formed_add_links:
  "well_formed m \<Longrightarrow> well_formed (foldl (\<lambda>m' l. setdefault_add m' l f) m ls)"
  by (induction ls arbitrary: m) (simp_all add: well_formed_setdefault_add)

lemma pages_of_add_links:
  "pages_of (foldl (\<lambda>m' l. setdefault_add m' l f) m ls) k =
     (if k \<in> set ls then insert f (pages_of m k) else pages_of m k)"
  by (induction ls arbitrary: m) (auto simp: pages_of_setdefault_add)

lemma well_formed_add_document: "well_formed m \<Longrightarrow> well_formed (add_document m d)"
  by (cases d) (simp add: well_formed_add_links)

lemma pages_of_add_document:
  "pages_of (add_document m d) k =
     (if is_external k \<and> k \<in> set (snd d) then insert (fst d) (pages_of m k) else pages_of m k)"
  by (cases d) (simp add: pages_of_add_links)

lemma well_formed_fold_documents:
  "well_formed m \<Longrightarrow> well_formed (foldl add_document m docs)"
  by (induction docs arbitrary: m) (simp_all add: well_formed_add_document)

lemma pages_of_fold_documents:
  "pages_of (foldl add_document m docs) k = pages_of m k \<union> {pg. references docs pg k}"
  by (induction docs arbitrary: m) (auto simp: pages_of_add_document references_def)

lemma well_formed_build: "well_formed (build_link_map docs)"
proof -
  have "well_formed []" by (simp add: well_formed_def)
  then show ?thesis unfolding build_link_map_def by (rule well_formed_fold_documents)
qed

lemma pages_of_build: "pages_of (build_link_map docs) k = {pg. references docs pg k}"
proof -
  have "pages_of [] k = {}" by (simp add: pages_of_def)
  then show ?thesis unfolding build_link_map_def pages_of_fold_documents by simp
qed

lemma well_formed_key_iff:
  assumes "well_formed m"
  shows "k \<in> fst ` set m \<longleftrightarrow> pages_of m k \<noteq> {}"
proof
  assume "k \<in> fst ` set m"
  then obtain pages where "map_of m k = Some pages"
    by (metis domD dom_map_of_conv_image_fst)
  moreover from this have "(k, pages) \<in> set m" by (rule map_of_SomeD)
  ultimately show "pages_of m k \<noteq> {}" using assms by (auto simp: well_formed_def pages_of_def)
next
  assume "pages_of m k \<noteq> {}"
  then obtain pages where "map_of m k = Some pages"
    by (auto simp: pages_of_def split: option.splits)
  then show "k \<in> fst ` set m" by (metis domI dom_map_of_conv_image_fst)
qed

lemma finite_pages_of: "well_formed m \<Longrightarrow> finite (pages_of m k)"
  by (auto simp: well_formed_def pages_of_def split: option.splits dest!: map_of_SomeD)

lemma targets_iff: "k \<in> targets docs \<longleftrightarrow> (\<exists>pg. references docs pg k)"
  by (auto simp: targets_def references_def)

lemma keys_build: "fst ` set (build_link_map docs) = targets docs"
proof (rule set_eqI)
  fix k
  have "k \<in> fst ` set (build_link_map docs) \<longleftrightarrow> pages_of (build_link_map docs) k \<noteq> {}"
    using well_formed_build by (rule well_formed_key_iff)
  also have "\<dots> \<longleftrightarrow> k \<in> targets docs"
    unfolding pages_of_build targets_iff by auto
  finally show "k \<in> fst ` set (build_link_map docs) \<longleftrightarrow> k \<in> targets docs" .
qed


section \<open>Properties of the coordinator\<close>

lemma await_tasks_rows:
  assumes "\<forall>u\<in>set us. (\<exists>out. fst (check_one_url nw u RETRY_COUNT) = Inr out) \<and> map_of m u \<noteq> None"
  shows "await_tasks m (map (\<lambda>u. (u, check_one_url nw u RETRY_COUNT)) us) acc =
           Inr (acc @ concat (map (rows_for nw m) us))"
  using assms
proof (induction us arbitrary: acc)
  case Nil
  then show ?case by simp
next
  case (Cons u us)
  obtain out where o: "fst (check_one_url nw u RETRY_COUNT) = Inr out" using Cons.prems by auto
  obtain pages where p: "map_of m u = Some pages" using Cons.prems by auto
  have ih: "await_tasks m (map (\<lambda>u. (u, check_one_url nw u RETRY_COUNT)) us) acc' =
              Inr (acc' @ concat (map (rows_for nw m) us))" for acc'
    using Cons.IH Cons.prems by simp
  have r: "rows_for nw m u =
      (if is_failure (fst out) then (case failure_rows m u out of Inr new \<Rightarrow> new | Inl e \<Rightarrow> []) else [])"
    by (simp add: rows_for_def o)
  show ?case
    by (simp add: o p ih r failure_rows_def)
qed

lemma check_all_links_rows:
  assumes "\<forall>u m' i. catchable (nw u m' i)"
  shows "check_all_links nw m = Inr (concat (map (rows_for nw m) (map fst m)))"
proof -
  have "\<forall>u\<in>set (map fst m). (\<exists>out. fst (check_one_url nw u RETRY_COUNT) = Inr out) \<and> map_of m u \<noteq> None"
  proof
    fix u assume "u \<in> set (map fst m)"
    then have "u \<in> fst ` set m" by simp
    then have "map_of m u \<noteq> None" unfolding map_of_eq_None_iff by simp
    moreover have "\<exists>out. fst (check_one_url nw u RETRY_COUNT) = Inr out"
      using assms check_one_url_catchable [of nw u RETRY_COUNT] by blast
    ultimately show "(\<exists>out. fst (check_one_url nw u RETRY_COUNT) = Inr out) \<and> map_of m u \<noteq> None"
      by simp
  qed
  then show ?thesis
    unfolding check_all_links_def make_tasks_def
    using await_tasks_rows [of "map fst m" nw m "[]"] by simp
qed

lemma rows_for_fields:
  assumes "r \<in> set (rows_for nw m u)"
  shows "url r = u \<and> failing nw u
       \<and> (\<exists>out. fst (check_one_url nw u RETRY_COUNT) = Inr out \<and> reason r = snd out
              \<and> status r = (case fst out of None \<Rightarrow> StrCell ''N/A'' | Some c \<Rightarrow> IntCell c))"
proof (cases "fst (check_one_url nw u RETRY_COUNT)")
  case (Inl e)
  then show ?thesis using assms by (simp add: rows_for_def)
next
  case (Inr out)
  show ?thesis
  proof (cases "is_failure (fst out)")
    case False
    then show ?thesis using assms Inr by (simp add: rows_for_def)
  next
    case True
    show ?thesis
    proof (cases "map_of m u")
      case None
      then show ?thesis using assms Inr True by (simp add: rows_for_def failure_rows_def)
    next
      case (Some pages)
      then have "r \<in> (\<lambda>pg. \<lparr>page = pg, url = u,
                   status = (case fst out of None \<Rightarrow> StrCell ''N/A'' | Some c \<Rightarrow> IntCell c),
                   reason = snd out\<rparr>) ` set (sorted_list_of_set pages)"
        using assms Inr True by (simp add: rows_for_def failure_rows_def)
      then obtain pg where "r = \<lparr>page = pg, url = u,
                   status = (case fst out of None \<Rightarrow> StrCell ''N/A'' | Some c \<Rightarrow> IntCell c),
                   reason = snd out\<rparr>" by blast
      then show ?thesis using Inr True by (simp add: failing_def)
    qed
  qed
qed

lemma keys_rows_for:
  assumes "finite (pages_of m u)"
  shows "map sort_field (rows_for nw m u) =
           (if failing nw u then map (\<lambda>pg. (pg, u)) (sorted_list_of_set (pages_of m u)) else [])"
  by (auto simp: rows_for_def failure_rows_def failing_def pages_of_def sort_field_def comp_def
      split: sum.splits option.splits)

lemma set_keys_concat:
  assumes "\<forall>u\<in>set us. finite (pages_of m u)"
  shows "set (map sort_field (concat (map (rows_for nw m) us))) =
           {(pg, u). u \<in> set us \<and> failing nw u \<and> pg \<in> pages_of m u}"
  using assms
proof (induction us)
  case Nil
  then show ?case by simp
next
  case (Cons u us)
  have "set (map sort_field (rows_for nw m u)) = {(pg, u') . u' = u \<and> failing nw u \<and> pg \<in> pages_of m u}"
    using Cons.prems by (auto simp: keys_rows_for)
  moreover have "set (map sort_field (concat (map (rows_for nw m) us))) =
           {(pg, u). u \<in> set us \<and> failing nw u \<and> pg \<in> pages_of m u}"
    using Cons by simp
  ultimately show ?case by (simp only: list.map concat.simps map_append set_append) auto
qed

lemma distinct_keys_concat:
  assumes "\<forall>u\<in>set us. finite (pages_of m u)" and "distinct us"
  shows "distinct (map sort_field (concat (map (rows_for nw m) us)))"
  using assms
proof (induction us)
  case Nil
  then show ?case by simp
next
  case (Cons u us)
  have d1: "distinct (map sort_field (rows_for nw m u))"
    using Cons.prems by (simp add: keys_rows_for distinct_map inj_on_def)
  have d2: "distinct (map sort_field (concat (map (rows_for nw m) us)))"
    using Cons by simp
  have s1: "set (map sort_field (rows_for nw m u)) \<subseteq> {(pg, u'). u' = u}"
    using Cons.prems by (auto simp: keys_rows_for)
  have s2: "set (map sort_field (concat (map (rows_for nw m) us))) \<subseteq> {(pg, u'). u' \<in> set us}"
    using set_keys_concat [of us m nw] Cons.prems by auto
  have "set (map sort_field (rows_for nw m u)) \<inter> set (map sort_field (concat (map (rows_for nw m) us))) = {}"
    using s1 s2 Cons.prems(2) by auto
  then show ?case using d1 d2 by (simp only: list.map concat.simps map_append distinct_append)
qed

lemma distinct_map_count:
  "distinct (map f xs) \<Longrightarrow>
   length (filter (\<lambda>x. f x = k) xs) = (if k \<in> f ` set xs then 1 else 0)"
  by (induction xs) auto

lemma distinct_map_filter_single:
  "distinct (map f xs) \<Longrightarrow> x \<in> set xs \<Longrightarrow> filter (\<lambda>y. f x = f y) xs = [x]"
proof (induction xs)
  case Nil
  then show ?case by simp
next
  case (Cons a xs)
  show ?case
  proof (cases "x = a")
    case True
    have "filter (\<lambda>y. f a = f y) xs = []"
      using Cons.prems(1) by (auto simp: filter_empty_conv)
    then show ?thesis using True by simp
  next
    case False
    then have "x \<in> set xs" using Cons.prems by simp
    then have "f x \<in> f ` set xs" by (rule imageI)
    moreover have "f a \<notin> f ` set xs" using Cons.prems(1) by simp
    ultimately have "f x \<noteq> f a" by metis
    then show ?thesis using Cons \<open>x \<in> set xs\<close> by simp
  qed
qed

lemma sort_key_unique:
  assumes "distinct (map f xs)" and "mset ys = mset xs"
  shows "sort_key f ys = sort_key f xs"
proof (rule properties_for_sort_key)
  show "mset (sort_key f xs) = mset ys" using assms by simp
  show "sorted (map f (sort_key f xs))" by (rule sorted_sort_key)
  fix k assume k: "k \<in> set (sort_key f xs)"
  have dy: "distinct (map f ys)"
    using assms by (metis mset_eq_imp_distinct_iff mset_map)
  have ds: "distinct (map f (sort_key f xs))"
    using assms(1) by (metis mset_eq_imp_distinct_iff mset_map mset_sort)
  have ky: "k \<in> set ys" using k assms(2) by (metis mset_eq_setD set_sort)
  show "filter (\<lambda>x. f k = f x) (sort_key f xs) = filter (\<lambda>x. f k = f x) ys"
    using distinct_map_filter_single [OF ds k] distinct_map_filter_single [OF dy ky] by simp
qed


lemma results_of_build:
  assumes "\<forall>u m i. catchable (nw u m i)"
  shows "check_all_links nw (build_link_map docs) = Inr (all_rows nw (build_link_map docs))"
    and "distinct (map sort_field (all_rows nw (build_link_map docs)))"
    and "set (map sort_field (all_rows nw (build_link_map docs))) =
           {(pg, u). references docs pg u \<and> failing nw u}"
proof -
  let ?m = "build_link_map docs"
  define results where "results = all_rows nw ?m"
  note results_def = results_def [unfolded all_rows_def]
  have wf: "well_formed ?m" by (rule well_formed_build)
  have fin: "\<forall>u\<in>set (map fst ?m). finite (pages_of ?m u)"
    using wf by (simp add: finite_pages_of)
  show "check_all_links nw ?m = Inr (all_rows nw ?m)"
    unfolding all_rows_def using assms(1) by (rule check_all_links_rows)
  show "distinct (map sort_field (all_rows nw ?m))"
    unfolding all_rows_def using fin wf by (intro distinct_keys_concat) (simp_all add: well_formed_def)
  have "set (map sort_field results) =
          {(pg, u). u \<in> set (map fst ?m) \<and> failing nw u \<and> pg \<in> pages_of ?m u}"
    unfolding results_def using fin by (rule set_keys_concat)
  also have "\<dots> = {(pg, u). references docs pg u \<and> failing nw u}"
    using keys_build [of docs] by (auto simp: pages_of_build targets_iff)
  finally show "set (map sort_field (all_rows nw ?m)) = {(pg, u). references docs pg u \<and> failing nw u}"
    unfolding results_def all_rows_def .
qed

lemma results_fields:
  assumes "r \<in> set (concat (map (rows_for nw m) us))"
  shows "\<exists>out. fst (check_one_url nw (url r) RETRY_COUNT) = Inr out \<and> is_failure (fst out)
               \<and> reason r = snd out
               \<and> status r = (case fst out of None \<Rightarrow> StrCell ''N/A'' | Some c \<Rightarrow> IntCell c)"
proof -
  obtain u where "r \<in> set (rows_for nw m u)" using assms by auto
  from rows_for_fields [OF this] show ?thesis
    by (auto simp: failing_def)
qed

text \<open>
  C4. When no request raises an exception outside the classes the probe handles, the
  coordinator run on the link map of the documents returns its rows, and: there is exactly
  one task, hence one call of \<open>check_one_url\<close>, for each external link that occurs in some
  document, and none for anything else; for every page and URL the number of rows with that
  page and URL is 1 when the page holds the URL and the one outcome of the URL is a failure
  (no status, or a status of at least 400), and 0 otherwise; every row carries the status and
  the reason of the outcome of its URL.
\<close>

theorem one_probe_per_target:
  assumes "\<forall>u m i. catchable (nw u m i)"
  shows "\<exists>results. check_all_links nw (build_link_map docs) = Inr results
     \<and> (\<forall>u. length (filter (\<lambda>t. fst t = u) (make_tasks nw (build_link_map docs))) =
              (if u \<in> targets docs then 1 else 0))
     \<and> (\<forall>t\<in>set (make_tasks nw (build_link_map docs)). snd t = check_one_url nw (fst t) RETRY_COUNT)
     \<and> (\<forall>pg u. length (filter (\<lambda>r. page r = pg \<and> url r = u) results) =
              (if references docs pg u \<and> failing nw u then 1 else 0))
     \<and> (\<forall>r\<in>set results. \<exists>out. fst (check_one_url nw (url r) RETRY_COUNT) = Inr out
              \<and> is_failure (fst out) \<and> reason r = snd out
              \<and> status r = (case fst out of None \<Rightarrow> StrCell ''N/A'' | Some c \<Rightarrow> IntCell c))"
proof -
  let ?m = "build_link_map docs"
  define results where "results = all_rows nw ?m"
  note res = results_of_build [OF assms, of docs, folded results_def]
  have tasks: "length (filter (\<lambda>t. fst t = u) (make_tasks nw ?m)) = (if u \<in> targets docs then 1 else 0)" for u
  proof -
    have "map fst (make_tasks nw ?m) = map fst ?m" by (simp add: make_tasks_def comp_def)
    then have "distinct (map fst (make_tasks nw ?m))" and "fst ` set (make_tasks nw ?m) = targets docs"
      using well_formed_build [of docs] keys_build [of docs]
      by (simp_all add: well_formed_def flip: set_map)
    then show ?thesis using distinct_map_count [of fst "make_tasks nw ?m" u] by simp
  qed
  have same: "\<forall>t\<in>set (make_tasks nw ?m). snd t = check_one_url nw (fst t) RETRY_COUNT"
    by (auto simp: make_tasks_def)
  have rows: "length (filter (\<lambda>r. page r = pg \<and> url r = u) results) =
                (if references docs pg u \<and> failing nw u then 1 else 0)" for pg u
  proof -
    have "(\<lambda>r. page r = pg \<and> url r = u) = (\<lambda>r. sort_field r = (pg, u))"
      by (simp add: sort_field_def)
    moreover have "(pg, u) \<in> sort_field ` set results \<longleftrightarrow> references docs pg u \<and> failing nw u"
      using res(3) by (simp flip: set_map)
    ultimately show ?thesis using distinct_map_count [OF res(2), of "(pg, u)"] by simp
  qed
  have fields: "\<forall>r\<in>set results. \<exists>out. fst (check_one_url nw (url r) RETRY_COUNT) = Inr out
              \<and> is_failure (fst out) \<and> reason r = snd out
              \<and> status r = (case fst out of None \<Rightarrow> StrCell ''N/A'' | Some c \<Rightarrow> IntCell c)"
    unfolding results_def all_rows_def using results_fields by blast
  show ?thesis using res(1) tasks same rows fields by blast
qed


theorem one_probe_per_target_witness:
  "(\<forall>u m i. catchable (scenario_net u m i))
   \<and> (\<exists>results. check_all_links scenario_net (build_link_map scenario_docs) = Inr results
        \<and> length (filter (\<lambda>t. fst t = ''http://good.example'')
                    (make_tasks scenario_net (build_link_map scenario_docs))) = 1
        \<and> length (filter (\<lambda>r. page r = ''b.html'' \<and> url r = ''http://bad.example'') results) = 1
        \<and> length (filter (\<lambda>r. page r = ''b.html'' \<and> url r = ''http://good.example'') results) = 0)"
proof -
  have c: "\<forall>u m i. catchable (scenario_net u m i)" by (simp add: scenario_net_def)
  have t: "''http://good.example'' \<in> targets scenario_docs"
    by (simp add: targets_def scenario_docs_def is_external_def startswith_def)
  have bad: "references scenario_docs ''b.html'' ''http://bad.example'' \<and> failing scenario_net ''http://bad.example''"
    by (simp add: references_def scenario_docs_def is_external_def startswith_def
        failing_def check_one_url_def RETRY_COUNT_def py_range_def upt_conv_Cons
        one_attempt_def scenario_net_def head_try_def head_body_def is_failure_def py_or_def)
  have good: "\<not> failing scenario_net ''http://good.example''"
    by (simp add: failing_def check_one_url_def RETRY_COUNT_def py_range_def upt_conv_Cons
        one_attempt_def scenario_net_def head_try_def head_body_def is_failure_def)
  from one_probe_per_target [OF c, of scenario_docs] obtain results where
    r: "check_all_links scenario_net (build_link_map scenario_docs) = Inr results"
    and k: "\<And>u. length (filter (\<lambda>t. fst t = u) (make_tasks scenario_net (build_link_map scenario_docs))) =
              (if u \<in> targets scenario_docs then 1 else 0)"
    and f: "\<And>pg u. length (filter (\<lambda>r. page r = pg \<and> url r = u) results) =
              (if references scenario_docs pg u \<and> failing scenario_net u then 1 else 0)"
    by blast
  show ?thesis using c r k [of "''http://good.example''"] t
      f [of "''b.html''" "''http://bad.example''"] f [of "''b.html''" "''http://good.example''"] bad good
    by simp
qed

section \<open>Properties of the report\<close>

lemma main_rows:
  assumes "\<forall>u m i. catchable (nw u m i)"
  shows "main nw docs =
           Inr \<lparr>csv_rows = sort_key sort_field (all_rows nw (build_link_map docs)),
                broken_urls = url ` set (all_rows nw (build_link_map docs)),
                broken_references = length (all_rows nw (build_link_map docs)),
                exit_code = (if all_rows nw (build_link_map docs) = [] then 0 else 1)\<rparr>"
proof -
  have e: "sort_key sort_field xs = [] \<longleftrightarrow> xs = []" for xs :: "row list"
    by (metis length_0_conv length_sort)
  show ?thesis
    by (simp add: main_def results_of_build(1) [OF assms] Let_def e)
qed

lemma failing_urls:
  assumes "\<forall>u m i. catchable (nw u m i)"
  shows "url ` set (all_rows nw (build_link_map docs)) = {u \<in> targets docs. failing nw u}"
proof -
  have "url ` set (all_rows nw (build_link_map docs)) =
          snd ` set (map sort_field (all_rows nw (build_link_map docs)))"
    by (simp add: sort_field_def image_image)
  also have "\<dots> = snd ` {(pg, u). references docs pg u \<and> failing nw u}"
    by (simp only: results_of_build(3) [OF assms])
  also have "\<dots> = {u \<in> targets docs. failing nw u}"
    by (auto simp: targets_iff image_iff)
  finally show ?thesis .
qed

lemma failing_count:
  assumes "\<forall>u m i. catchable (nw u m i)"
  shows "length (all_rows nw (build_link_map docs)) = card {(pg, u). references docs pg u \<and> failing nw u}"
proof -
  have "length (all_rows nw (build_link_map docs)) = length (map sort_field (all_rows nw (build_link_map docs)))"
    by simp
  also have "\<dots> = card (set (map sort_field (all_rows nw (build_link_map docs))))"
    using results_of_build(2) [OF assms, of docs] by (simp only: distinct_card)
  finally show ?thesis by (simp only: results_of_build(3) [OF assms])
qed

lemma distinct_keys_sort_key:
  assumes "distinct (map f xs)"
  shows "distinct (map f (sort_key f xs))"
proof -
  have "mset (map f (sort_key f xs)) = mset (map f xs)" by simp
  then show ?thesis using assms mset_eq_imp_distinct_iff by blast
qed

text \<open>
  C5. When no request raises an exception outside the classes the probe handles, \<open>main\<close>
  returns a report whose rows are sorted ascending by the pair (page, URL), with no two rows
  sharing that pair. The rows are the coordinator's rows in another order, and sorting any
  other arrangement of the coordinator's rows gives the same list, so the order in which
  rows were appended does not show. The set \<open>broken_urls\<close> of the summary is the set of distinct
  external links whose outcome is a failure, and the number of rows is the number of pairs
  of a page and a failing URL that the page holds.
\<close>

theorem report_sorted_and_counted:
  assumes "\<forall>u m i. catchable (nw u m i)"
  shows "\<exists>results r. check_all_links nw (build_link_map docs) = Inr results \<and> main nw docs = Inr r
     \<and> sorted (map sort_field (csv_rows r))
     \<and> distinct (map sort_field (csv_rows r))
     \<and> mset (csv_rows r) = mset results
     \<and> (\<forall>rs. mset rs = mset results \<longrightarrow> sort_key sort_field rs = csv_rows r)
     \<and> broken_urls r = {u \<in> targets docs. failing nw u}
     \<and> broken_references r = length (csv_rows r)
     \<and> broken_references r = card {(pg, u). references docs pg u \<and> failing nw u}"
proof -
  define results where "results = all_rows nw (build_link_map docs)"
  define r where "r = \<lparr>csv_rows = sort_key sort_field results, broken_urls = url ` set results,
             broken_references = length results,
             exit_code = (if results = [] then 0 else 1)\<rparr>"
  have cr: "csv_rows r = sort_key sort_field results" by (simp add: r_def)
  have bu: "broken_urls r = url ` set results" by (simp add: r_def)
  have br: "broken_references r = length results" by (simp add: r_def)
  note res = results_of_build [OF assms, of docs, folded results_def]
  show ?thesis
  proof (intro exI conjI)
    show "check_all_links nw (build_link_map docs) = Inr results" by (rule res(1))
    show "main nw docs = Inr r" unfolding r_def results_def using assms by (rule main_rows)
    show "sorted (map sort_field (csv_rows r))" unfolding cr by (rule sorted_sort_key)
    show "distinct (map sort_field (csv_rows r))"
      unfolding cr using res(2) by (rule distinct_keys_sort_key)
    show "mset (csv_rows r) = mset results" unfolding cr by simp
    show "\<forall>rs. mset rs = mset results \<longrightarrow> sort_key sort_field rs = csv_rows r"
      unfolding cr using sort_key_unique [OF res(2)] by blast
    show "broken_urls r = {u \<in> targets docs. failing nw u}"
      unfolding bu results_def using assms by (rule failing_urls)
    show "broken_references r = length (csv_rows r)" unfolding cr br by simp
    show "broken_references r = card {(pg, u). references docs pg u \<and> failing nw u}"
      unfolding br results_def using assms by (rule failing_count)
  qed
qed

theorem report_sorted_and_counted_witness:
  "(\<forall>u m i. catchable (always_timeout_net u m i))
   \<and> (\<exists>results r.
        check_all_links always_timeout_net (build_link_map scenario_docs) = Inr results
        \<and> main always_timeout_net scenario_docs = Inr r
        \<and> map sort_field results =
            [(''a.html'', ''http://good.example''), (''b.html'', ''http://good.example''),
             (''b.html'', ''http://bad.example'')]
        \<and> map sort_field (csv_rows r) =
            [(''a.html'', ''http://good.example''), (''b.html'', ''http://bad.example''),
             (''b.html'', ''http://good.example'')]
        \<and> sorted (map sort_field (csv_rows r))
        \<and> sort_key sort_field (rev results) = csv_rows r
        \<and> card (broken_urls r) = 2
        \<and> broken_references r = 3)"
proof -
  have c: "\<forall>u m i. catchable (always_timeout_net u m i)" by (simp add: always_timeout_net_def)
  have ca: "check_all_links always_timeout_net (build_link_map scenario_docs) =
      Inr [\<lparr>page = ''a.html'', url = ''http://good.example'', status = StrCell ''N/A'', reason = ''Timeout''\<rparr>,
           \<lparr>page = ''b.html'', url = ''http://good.example'', status = StrCell ''N/A'', reason = ''Timeout''\<rparr>,
           \<lparr>page = ''b.html'', url = ''http://bad.example'', status = StrCell ''N/A'', reason = ''Timeout''\<rparr>]"
    by code_simp
  have ma: "main always_timeout_net scenario_docs =
      Inr \<lparr>csv_rows =
          [\<lparr>page = ''a.html'', url = ''http://good.example'', status = StrCell ''N/A'', reason = ''Timeout''\<rparr>,
           \<lparr>page = ''b.html'', url = ''http://bad.example'', status = StrCell ''N/A'', reason = ''Timeout''\<rparr>,
           \<lparr>page = ''b.html'', url = ''http://good.example'', status = StrCell ''N/A'', reason = ''Timeout''\<rparr>],
          broken_urls = {''http://good.example'', ''http://bad.example''},
          broken_references = 3, exit_code = 1\<rparr>"
    by code_simp
  from report_sorted_and_counted [OF c, of scenario_docs] obtain results r where
    1: "check_all_links always_timeout_net (build_link_map scenario_docs) = Inr results"
    and 2: "main always_timeout_net scenario_docs = Inr r"
    and 3: "sorted (map sort_field (csv_rows r))"
    and 4: "\<forall>rs. mset rs = mset results \<longrightarrow> sort_key sort_field rs = csv_rows r"
    by blast
  have 5: "sort_key sort_field (rev results) = csv_rows r" using 4 by simp
  have 6: "map sort_field results =
            [(''a.html'', ''http://good.example''), (''b.html'', ''http://good.example''),
             (''b.html'', ''http://bad.example'')]"
    using 1 unfolding ca by (auto simp: sort_field_def)
  have 7: "map sort_field (csv_rows r) =
            [(''a.html'', ''http://good.example''), (''b.html'', ''http://bad.example''),
             (''b.html'', ''http://good.example'')]"
    using 2 unfolding ma by (auto simp: sort_field_def)
  have 8: "card (broken_urls r) = 2" using 2 unfolding ma by auto
  have 9: "broken_references r = 3" using 2 unfolding ma by auto
  show ?thesis using c 1 2 3 5 6 7 8 9 by (intro conjI exI [of _ results] exI [of _ r])
qed

text \<open>
  C9. When no request raises an exception outside the classes the probe handles, \<open>main\<close>
  returns; its exit code is 0 exactly when the list of rows is empty and 1 exactly when it is
  not, and the list is empty exactly when no external link of the documents has a failing
  outcome.
\<close>

theorem exit_code_reflects_failures:
  assumes "\<forall>u m i. catchable (nw u m i)"
  shows "\<exists>r. main nw docs = Inr r
     \<and> (exit_code r = 0 \<longleftrightarrow> csv_rows r = [])
     \<and> (exit_code r = 1 \<longleftrightarrow> csv_rows r \<noteq> [])
     \<and> (csv_rows r = [] \<longleftrightarrow> \<not> (\<exists>u\<in>targets docs. failing nw u))"
proof -
  define results where "results = all_rows nw (build_link_map docs)"
  define r where "r = \<lparr>csv_rows = sort_key sort_field results, broken_urls = url ` set results,
             broken_references = length results,
             exit_code = (if results = [] then 0 else 1)\<rparr>"
  have cr: "csv_rows r = sort_key sort_field results" by (simp add: r_def)
  have ec: "exit_code r = (if results = [] then 0 else 1)" by (simp add: r_def)
  have "length (sort_key sort_field results) = length results" by (rule length_sort)
  then have e: "csv_rows r = [] \<longleftrightarrow> results = []" unfolding cr by (metis length_0_conv)
  have "results = [] \<longleftrightarrow> url ` set results = {}" by simp
  also have "\<dots> \<longleftrightarrow> \<not> (\<exists>u\<in>targets docs. failing nw u)"
    unfolding results_def failing_urls [OF assms] by blast
  finally have n: "results = [] \<longleftrightarrow> \<not> (\<exists>u\<in>targets docs. failing nw u)" .
  show ?thesis
  proof (intro exI conjI)
    show "main nw docs = Inr r" unfolding r_def results_def using assms by (rule main_rows)
    show "exit_code r = 0 \<longleftrightarrow> csv_rows r = []" unfolding e ec by simp
    show "exit_code r = 1 \<longleftrightarrow> csv_rows r \<noteq> []" unfolding e ec by simp
    show "csv_rows r = [] \<longleftrightarrow> \<not> (\<exists>u\<in>targets docs. failing nw u)" unfolding e by (rule n)
  qed
qed

theorem exit_code_reflects_failures_witness:
  "(\<forall>u m i. catchable (scenario_net u m i))
   \<and> (\<exists>r. main scenario_net scenario_docs = Inr r \<and> exit_code r = 1 \<and> csv_rows r \<noteq> [])"
proof -
  have c: "\<forall>u m i. catchable (scenario_net u m i)" by (simp add: scenario_net_def)
  have t: "''http://bad.example'' \<in> targets scenario_docs"
    by (simp add: targets_def scenario_docs_def is_external_def startswith_def)
  have bad: "failing scenario_net ''http://bad.example''"
    by (simp add: failing_def check_one_url_def RETRY_COUNT_def py_range_def upt_conv_Cons
        one_attempt_def scenario_net_def head_try_def head_body_def is_failure_def py_or_def)
  from exit_code_reflects_failures [OF c, of scenario_docs] obtain r where
    m: "main scenario_net scenario_docs = Inr r" and x: "exit_code r = 1 \<longleftrightarrow> csv_rows r \<noteq> []"
    and n: "csv_rows r = [] \<longleftrightarrow> \<not> (\<exists>u\<in>targets scenario_docs. failing scenario_net u)"
    by blast
  have ne: "csv_rows r \<noteq> []" using n t bad by blast
  then have "exit_code r = 1" using x by simp
  then show ?thesis using c m ne by (intro conjI exI [of _ r])
qed

section \<open>Properties of the filter\<close>

lemma get_try_events: "set (snd (get_try k retries r)) \<subseteq> {Sleep 2}"
  by (cases "(k, retries, r)" rule: get_try.cases) (simp_all add: retry_or_return_def)

lemma one_attempt_events:
  "set (snd (one_attempt srv u retries k)) \<subseteq> {Request HEAD u, Request GET u, Sleep 2}"
  using get_try_events [of k retries "srv GET k"]
  by (auto simp: one_attempt_def split: sum.splits prod.splits)

lemma attempt_loop_events:
  "set (snd (attempt_loop srv u retries ks)) \<subseteq> {Request HEAD u, Request GET u, Sleep 2}"
proof (induction ks)
  case Nil
  then show ?case by simp
next
  case (Cons k ks)
  obtain x evs where a: "one_attempt srv u retries k = (x, evs)" by (cases "one_attempt srv u retries k")
  obtain y evs' where l: "attempt_loop srv u retries ks = (y, evs')" by (cases "attempt_loop srv u retries ks")
  have 1: "set evs \<subseteq> {Request HEAD u, Request GET u, Sleep 2}"
    using one_attempt_events [of srv u retries k] a by simp
  have 2: "set evs' \<subseteq> {Request HEAD u, Request GET u, Sleep 2}"
    using Cons.IH l by simp
  show ?case using 1 2 by (cases x) (simp_all add: a l)
qed

lemma check_one_url_events:
  "set (snd (check_one_url nw u retries)) \<subseteq> {Acquire, Release, Request HEAD u, Request GET u, Sleep 2}"
proof -
  obtain y evs where l: "attempt_loop (nw u) u retries (py_range (1 + retries)) = (y, evs)"
    by (cases "attempt_loop (nw u) u retries (py_range (1 + retries))")
  have "set evs \<subseteq> {Request HEAD u, Request GET u, Sleep 2}"
    using attempt_loop_events [of "nw u" u retries "py_range (1 + retries)"] l by simp
  then show ?thesis by (cases y) (auto simp: check_one_url_def l)
qed

lemma startswith_iff: "startswith s p \<longleftrightarrow> (\<exists>rest. s = p @ rest)"
proof
  assume "startswith s p"
  then have "s = p @ drop (length p) s"
    unfolding startswith_def by (metis append_take_drop_id)
  then show "\<exists>rest. s = p @ rest" ..
next
  assume "\<exists>rest. s = p @ rest"
  then show "startswith s p" by (auto simp: startswith_def)
qed

text \<open>
  C10. \<open>is_external\<close> holds exactly of the strings that begin with the lower-case characters
  \<open>http://\<close> or \<open>https://\<close>; it rejects \<open>HTTP://example.com\<close>, a mixed-case scheme and another
  scheme. The keys of the link map, and so the URLs that get a task, are exactly the links
  of the documents that it accepts; a rejected link is the URL of no request of any task.
\<close>

theorem external_filter_is_literal:
  "(is_external l \<longleftrightarrow> (\<exists>rest. l = ''http://'' @ rest \<or> l = ''https://'' @ rest))
   \<and> \<not> is_external ''HTTP://example.com''
   \<and> \<not> is_external ''Https://example.com''
   \<and> \<not> is_external ''ftp://example.com''
   \<and> (l \<in> fst ` set (build_link_map docs) \<longleftrightarrow> is_external l \<and> (\<exists>d\<in>set docs. l \<in> set (snd d)))
   \<and> (l \<in> fst ` set (make_tasks nw (build_link_map docs))
        \<longleftrightarrow> is_external l \<and> (\<exists>d\<in>set docs. l \<in> set (snd d)))
   \<and> (\<not> is_external l \<longrightarrow>
        (\<forall>t\<in>set (make_tasks nw (build_link_map docs)). \<forall>mth. Request mth l \<notin> set (snd (snd t))))"
proof -
  have 1: "is_external l \<longleftrightarrow> (\<exists>rest. l = ''http://'' @ rest \<or> l = ''https://'' @ rest)"
    unfolding is_external_def startswith_iff by blast
  have 2: "\<not> is_external ''HTTP://example.com''" "\<not> is_external ''Https://example.com''"
    "\<not> is_external ''ftp://example.com''"
    by (simp_all add: is_external_def startswith_def)
  have 3: "l \<in> fst ` set (build_link_map docs) \<longleftrightarrow> is_external l \<and> (\<exists>d\<in>set docs. l \<in> set (snd d))"
    unfolding keys_build targets_iff references_def by blast
  have k: "fst ` set (make_tasks nw (build_link_map docs)) = fst ` set (build_link_map docs)"
    by (simp add: make_tasks_def image_image)
  have 4: "l \<in> fst ` set (make_tasks nw (build_link_map docs))
        \<longleftrightarrow> is_external l \<and> (\<exists>d\<in>set docs. l \<in> set (snd d))"
    unfolding k by (rule 3)
  have 5: "\<forall>t\<in>set (make_tasks nw (build_link_map docs)). \<forall>mth. Request mth l \<notin> set (snd (snd t))"
    if ne: "\<not> is_external l"
  proof (intro ballI allI notI)
    fix t mth
    assume t: "t \<in> set (make_tasks nw (build_link_map docs))"
      and r: "Request mth l \<in> set (snd (snd t))"
    have s: "snd t = check_one_url nw (fst t) RETRY_COUNT" using t by (auto simp: make_tasks_def)
    have "Request mth l \<in> {Acquire, Release, Request HEAD (fst t), Request GET (fst t), Sleep 2}"
      using r check_one_url_events [of nw "fst t" RETRY_COUNT] unfolding s by blast
    then have "l = fst t" by auto
    then have "l \<in> fst ` set (make_tasks nw (build_link_map docs))" using t by simp
    then show False using 4 ne by simp
  qed
  show ?thesis using 1 2 3 4 5 by blast
qed

theorem external_filter_is_literal_witness:
  "\<not> is_external ''HTTP://example.com''
   \<and> ''HTTP://example.com'' \<notin>
        fst ` set (build_link_map [(''a.html'', [''HTTP://example.com'', ''http://good.example''])])
   \<and> \<not> (\<exists>t\<in>set (make_tasks scenario_net
                (build_link_map [(''a.html'', [''HTTP://example.com'', ''http://good.example''])])).
          \<exists>mth. Request mth ''HTTP://example.com'' \<in> set (snd (snd t)))"
  using external_filter_is_literal [of "''HTTP://example.com''"
      "[(''a.html'', [''HTTP://example.com'', ''http://good.example''])]" scenario_net]
  by blast

section \<open>Failures are outcomes\<close>

lemma retry_or_return_absent_status:
  "retry_or_return k retries out = (Return (None, rsn), evs) \<Longrightarrow> rsn = snd out"
  by (auto simp: retry_or_return_def split: if_splits)

lemma get_try_absent_status:
  assumes "get_try k retries r = (Return (None, rsn), evs)"
  shows "rsn = ''Timeout'' \<or> rsn = ''Connection failed''
   \<or> (\<exists>m. rsn = ''Client error: '' @ m) \<or> (\<exists>m. rsn = ''OS error: '' @ m)"
proof (cases r)
  case (Response st rs)
  then show ?thesis using assms by simp
next
  case (Raises e)
  show ?thesis
  proof (cases e)
    case TimeoutError
    then have "retry_or_return k retries (None, ''Timeout'') = (Return (None, rsn), evs)"
      using assms Raises by simp
    then have "rsn = snd (None :: int option, ''Timeout'')" by (rule retry_or_return_absent_status)
    then show ?thesis by simp
  next
    case (ClientConnectorError m)
    then have "retry_or_return k retries (None, ''Connection failed'') = (Return (None, rsn), evs)"
      using assms Raises by simp
    then have "rsn = snd (None :: int option, ''Connection failed'')" by (rule retry_or_return_absent_status)
    then show ?thesis by simp
  next
    case (ClientError m)
    then have "retry_or_return k retries (None, ''Client error: '' @ m) = (Return (None, rsn), evs)"
      using assms Raises by simp
    then have "rsn = snd (None :: int option, ''Client error: '' @ m)" by (rule retry_or_return_absent_status)
    then have "rsn = ''Client error: '' @ m" by (simp only: snd_conv)
    then show ?thesis by blast
  next
    case (OSError m)
    then have "retry_or_return k retries (None, ''OS error: '' @ m) = (Return (None, rsn), evs)"
      using assms Raises by simp
    then have "rsn = snd (None :: int option, ''OS error: '' @ m)" by (rule retry_or_return_absent_status)
    then have "rsn = ''OS error: '' @ m" by (simp only: snd_conv)
    then show ?thesis by blast
  next
    case (OtherException m)
    then show ?thesis using assms Raises by simp
  qed
qed

lemma one_attempt_absent_status:
  assumes "one_attempt srv u retries k = (Return (None, rsn), evs)"
  shows "rsn = ''Timeout'' \<or> rsn = ''Connection failed''
   \<or> (\<exists>m. rsn = ''Client error: '' @ m) \<or> (\<exists>m. rsn = ''OS error: '' @ m)"
proof (cases "head_try (srv HEAD k)")
  case (Inr out)
  then have "out = (None, rsn)" using assms by (simp add: one_attempt_def)
  then show ?thesis using Inr
    by (cases "srv HEAD k") (auto simp: head_try_def head_body_def split: if_splits)
next
  case (Inl e)
  then obtain evs' where "get_try k retries (srv GET k) = (Return (None, rsn), evs')"
    using assms by (auto simp: one_attempt_def split: if_splits prod.splits)
  then show ?thesis by (rule get_try_absent_status)
qed

lemma attempt_loop_absent_status:
  "attempt_loop srv u retries ks = (Returned (None, rsn), evs) \<Longrightarrow>
   rsn = ''Timeout'' \<or> rsn = ''Connection failed''
   \<or> (\<exists>m. rsn = ''Client error: '' @ m) \<or> (\<exists>m. rsn = ''OS error: '' @ m)"
proof (induction ks arbitrary: evs)
  case Nil
  then show ?case by simp
next
  case (Cons k ks)
  obtain x evs1 where a: "one_attempt srv u retries k = (x, evs1)" by (cases "one_attempt srv u retries k")
  obtain y evs2 where l: "attempt_loop srv u retries ks = (y, evs2)" by (cases "attempt_loop srv u retries ks")
  show ?case
  proof (cases x)
    case (Return out')
    then have "out' = (None, rsn)" using Cons.prems a by simp
    then show ?thesis using a Return one_attempt_absent_status [of srv u retries k rsn evs1] by simp
  next
    case Continue
    then have "y = Returned (None, rsn)" using Cons.prems a l by simp
    then show ?thesis using Cons.IH l by simp
  next
    case (Raise e)
    then show ?thesis using Cons.prems a by simp
  qed
qed

lemma check_one_url_absent_status:
  assumes "fst (check_one_url nw u retries) = Inr (None, rsn)"
  shows "rsn = ''Timeout'' \<or> rsn = ''Connection failed''
   \<or> (\<exists>m. rsn = ''Client error: '' @ m) \<or> (\<exists>m. rsn = ''OS error: '' @ m)
   \<or> rsn = ''Unknown error''"
proof -
  obtain y evs where l: "attempt_loop (nw u) u retries (py_range (1 + retries)) = (y, evs)"
    by (cases "attempt_loop (nw u) u retries (py_range (1 + retries))")
  show ?thesis
  proof (cases y)
    case (Returned out)
    then have "out = (None, rsn)" using assms l by (simp add: check_one_url_def)
    then have "attempt_loop (nw u) u retries (py_range (1 + retries)) = (Returned (None, rsn), evs)"
      using l Returned by simp
    from attempt_loop_absent_status [OF this] show ?thesis by blast
  next
    case (Raised e)
    then show ?thesis using assms l by (simp add: check_one_url_def)
  next
    case Exhausted
    then show ?thesis using assms l by (simp add: check_one_url_def)
  qed
qed


text \<open>
  What does hold: when every request ends in a response, a timeout, a connection failure,
  another client error or another OS error, \<open>check_one_url\<close> returns an outcome and raises
  nothing, for any \<open>retries\<close>; an outcome with no status has one of the reasons "Timeout",
  "Connection failed", "Client error: ...", "OS error: ..." or "Unknown error". Then every
  task of the coordinator holds an outcome, so no \<open>await\<close> raises, and \<open>check_all_links\<close> and
  \<open>main\<close> return.
\<close>

lemma handled_failures_are_outcomes:
  assumes "\<forall>u m i. catchable (nw u m i)"
  shows "(\<exists>out. fst (check_one_url nw u retries) = Inr out)
     \<and> (\<forall>rsn. fst (check_one_url nw u retries) = Inr (None, rsn) \<longrightarrow>
           rsn = ''Timeout'' \<or> rsn = ''Connection failed''
           \<or> (\<exists>m. rsn = ''Client error: '' @ m) \<or> (\<exists>m. rsn = ''OS error: '' @ m)
           \<or> rsn = ''Unknown error'')
     \<and> (\<forall>t\<in>set (make_tasks nw (build_link_map docs)). \<exists>out. fst (snd t) = Inr out)
     \<and> (\<exists>results. check_all_links nw (build_link_map docs) = Inr results)
     \<and> (\<exists>r. main nw docs = Inr r)"
proof (intro conjI)
  have c: "\<forall>m i. catchable (nw v m i)" for v using assms by simp
  show "\<exists>out. fst (check_one_url nw u retries) = Inr out"
    using c by (rule check_one_url_catchable)
  show "\<forall>rsn. fst (check_one_url nw u retries) = Inr (None, rsn) \<longrightarrow>
           rsn = ''Timeout'' \<or> rsn = ''Connection failed''
           \<or> (\<exists>m. rsn = ''Client error: '' @ m) \<or> (\<exists>m. rsn = ''OS error: '' @ m)
           \<or> rsn = ''Unknown error''"
    by (intro allI impI) (rule check_one_url_absent_status)
  show "\<forall>t\<in>set (make_tasks nw (build_link_map docs)). \<exists>out. fst (snd t) = Inr out"
  proof
    fix t assume "t \<in> set (make_tasks nw (build_link_map docs))"
    then have s: "snd t = check_one_url nw (fst t) RETRY_COUNT" by (auto simp: make_tasks_def)
    show "\<exists>out. fst (snd t) = Inr out"
      unfolding s using c by (rule check_one_url_catchable)
  qed
  show "\<exists>results. check_all_links nw (build_link_map docs) = Inr results"
    using results_of_build(1) [OF assms] by (rule exI)
  show "\<exists>r. main nw docs = Inr r"
    using main_rows [OF assms] by (rule exI)
qed

text \<open>
  C6. The probe does not capture every failure. Its handlers name \<open>ClientError\<close>,
  \<open>TimeoutError\<close> and \<open>OSError\<close> only; when the request for a URL raises anything else, here a
  \<open>ValueError\<close>, \<open>check_one_url\<close> raises it after the HEAD request instead of returning an
  outcome. The coordinator raises it in turn when it awaits that task, and \<open>main\<close> ends with
  the exception and no report, although the other URL of the document answers 200 and has
  its outcome.
\<close>

theorem unhandled_exception_aborts_run:
  "check_one_url value_error_net ''http://a%3Ab@example.com/'' RETRY_COUNT =
     (Inl (OtherException ''ValueError''),
      [Acquire, Request HEAD ''http://a%3Ab@example.com/'', Release])
   \<and> fst (check_one_url value_error_net ''http://good.example'' RETRY_COUNT) = Inr (Some 200, ''OK'')
   \<and> map fst (make_tasks value_error_net (build_link_map value_error_docs)) =
       [''http://good.example'', ''http://a%3Ab@example.com/'']
   \<and> check_all_links value_error_net (build_link_map value_error_docs) =
       Inl (OtherException ''ValueError'')
   \<and> main value_error_net value_error_docs = Inl (OtherException ''ValueError'')"
  by code_simp

end
